theory Spec2Isabelle
  imports Complex_Main "HOL-Library.Multiset"
begin

section \<open>Data model\<close>

text \<open>
  A float cell is either NaN (\<open>None\<close>) or a value of a linearly ordered type
  (\<open>Some x\<close>). The code only compares, sorts and moves values, never computes with
  them, so the value type is left abstract; infinities are ordinary elements of the
  order (\<open>np.isnan\<close> does not drop them).
\<close>

type_synonym 'a cell = "'a option"

datatype 'a ndarray = Vec "'a cell list" | Mat "'a cell list list"

datatype error = Exception string | ValueError | IndexError

text \<open>\<open>arr[~np.isnan(arr)]\<close>: the non-NaN values, in their original order.\<close>

fun dropna :: "'a cell list \<Rightarrow> 'a list" where
  "dropna [] = []"
| "dropna (None # cs) = dropna cs"
| "dropna (Some x # cs) = x # dropna cs"

text \<open>
  The array primitives the code calls are external (bottleneck and numpy). Their
  choice of output order is a parameter of the model: \<open>partsort_impl xs n\<close> and
  \<open>argpartsort_impl xs n\<close> are what \<open>nb.partsort\<close> and \<open>nb.argpartsort\<close> return for
  \<open>1 \<le> n \<le> len(xs)\<close>, and \<open>argsort_impl xs\<close> is what \<open>np.argsort\<close> returns.
\<close>

record 'a prims =
  partsort_impl :: "'a list \<Rightarrow> nat \<Rightarrow> 'a list"
  argpartsort_impl :: "'a list \<Rightarrow> nat \<Rightarrow> nat list"
  argsort_impl :: "'a list \<Rightarrow> nat list"

text \<open>
  bottleneck's entry checks: an empty array is returned as a copy, and otherwise
  \<open>n\<close> must lie between 1 and the length, inclusive (\<open>ValueError\<close>). bottleneck
  reads \<open>n\<close> as a C integer; the model covers the values of \<open>n\<close> in that range, and
  a larger \<open>n\<close>, which raises \<open>OverflowError\<close> before the check, is outside it.
\<close>

definition nb_partsort :: "'a prims \<Rightarrow> 'a list \<Rightarrow> int \<Rightarrow> error + 'a list" where
  "nb_partsort P arr n =
     (if length arr = 0 then Inr arr
      else if n < 1 \<or> n > int (length arr) then Inl ValueError
      else Inr (partsort_impl P arr (nat n)))"

definition nb_argpartsort :: "'a prims \<Rightarrow> 'a list \<Rightarrow> int \<Rightarrow> error + nat list" where
  "nb_argpartsort P arr n =
     (if length arr = 0 then Inr []
      else if n < 1 \<or> n > int (length arr) then Inl ValueError
      else Inr (argpartsort_impl P arr (nat n)))"

text \<open>Python slices \<open>slice(N, None)\<close> and \<open>slice(None, N)\<close>, with a negative bound
  counted from the end and every bound clamped to the sequence.\<close>

datatype slice = SliceFrom int | SliceTo int

definition slice_bound :: "nat \<Rightarrow> int \<Rightarrow> nat" where
  "slice_bound len i = (if i < 0 then nat (max 0 (int len + i)) else min len (nat i))"

fun getslice :: "'a list \<Rightarrow> slice \<Rightarrow> 'a list" where
  "getslice xs (SliceFrom i) = drop (slice_bound (length xs) i) xs"
| "getslice xs (SliceTo i) = take (slice_bound (length xs) i) xs"

section \<open>Top-N selection, value form\<close>

text \<open>\<open>if ascending is None: ascending = not N > 0\<close>\<close>

definition resolve_ascending :: "bool option \<Rightarrow> int \<Rightarrow> bool" where
  "resolve_ascending ascending N = (case ascending of None \<Rightarrow> \<not> N > 0 | Some b \<Rightarrow> b)"

text \<open>The two branches of \<open>bn_topn\<close> that rebind \<open>N\<close> and choose the slice; both
  clamp \<open>|N|\<close> to the length first.\<close>

definition topn_split :: "int \<Rightarrow> nat \<Rightarrow> int \<times> slice" where
  "topn_split N len =
     (if N > 0 then
        (let N1 = min \<bar>N\<bar> (int len); N2 = int len - \<bar>N1\<bar> in (N2, SliceFrom N2))
      else
        (let N1 = min \<bar>N\<bar> (int len) in (N1, SliceTo N1)))"

fun bn_topn :: "('a::linorder) prims \<Rightarrow> 'a ndarray \<Rightarrow> int \<Rightarrow> bool option \<Rightarrow> error + 'a list" where
  "bn_topn P (Mat m) N ascending = Inl (Exception ''Only works on ndim=1'')"
| "bn_topn P (Vec a) N ascending =
     (let asc = resolve_ascending ascending N;
          arr = dropna a;
          (N', sl) = topn_split N (length arr)
      in case (if N' = 0 then Inr arr
               else case nb_partsort P arr N' of
                      Inl e \<Rightarrow> Inl e
                    | Inr out \<Rightarrow> Inr (getslice out sl)) of
           Inl e \<Rightarrow> Inl e
         | Inr bn_res \<Rightarrow>
             (let sorted_res = sort bn_res
              in Inr (if \<not> asc then rev sorted_res else sorted_res)))"

section \<open>Top-N selection, index form\<close>

text \<open>\<open>np.where(~na_mask)[0]\<close>: the original positions of the non-NaN cells,
  ascending; \<open>notna_from k\<close> numbers the cells from \<open>k\<close>.\<close>

fun notna_from :: "nat \<Rightarrow> 'a cell list \<Rightarrow> nat list" where
  "notna_from k [] = []"
| "notna_from k (None # cs) = notna_from (Suc k) cs"
| "notna_from k (Some x # cs) = k # notna_from (Suc k) cs"

definition where_notna :: "'a cell list \<Rightarrow> nat list" where
  "where_notna a = notna_from 0 a"

text \<open>numpy indexing with an array of positions, \<open>xs[index]\<close>: a position outside
  the array raises \<open>IndexError\<close>.\<close>

definition take_idx :: "'a list \<Rightarrow> nat list \<Rightarrow> error + 'a list" where
  "take_idx xs index =
     (if list_all (\<lambda>i. i < length xs) index then Inr (map (\<lambda>i. xs ! i) index)
      else Inl IndexError)"

text \<open>The two branches of \<open>bn_topargn\<close> that rebind \<open>N\<close>: no clamp to the length.\<close>

definition topargn_split :: "int \<Rightarrow> nat \<Rightarrow> int \<times> slice" where
  "topargn_split N len =
     (if N > 0 then (let N1 = int len - \<bar>N\<bar> in (N1, SliceFrom N1))
      else (let N1 = \<bar>N\<bar> in (N1, SliceTo N1)))"

text \<open>
  \<open>has_na\<close> counts the NaN cells. With NaNs the code compacts the array and keeps
  \<open>old_index_map\<close>; without NaNs the array is used as it is, and its values are
  \<open>dropna a\<close> as well.
\<close>

fun bn_topargn :: "('a::linorder) prims \<Rightarrow> 'a ndarray \<Rightarrow> int \<Rightarrow> bool option \<Rightarrow> error + nat list" where
  "bn_topargn P (Mat m) N ascending = Inl (Exception ''Only works on ndim=1'')"
| "bn_topargn P (Vec a) N ascending =
     (let asc = resolve_ascending ascending N;
          has_na = length (filter (\<lambda>c. c = None) a);
          old_index_map = where_notna a;
          arr = dropna a;
          (N', sl) = topargn_split N (length arr)
      in case nb_argpartsort P arr N' of
           Inl e \<Rightarrow> Inl e
         | Inr out \<Rightarrow>
             (let index = getslice out sl
              in case take_idx arr index of
                   Inl e \<Rightarrow> Inl e
                 | Inr picked \<Rightarrow>
                     (let index_sort0 = argsort_impl P picked;
                          index_sort = (if \<not> asc then rev index_sort0 else index_sort0)
                      in case take_idx index index_sort of
                           Inl e \<Rightarrow> Inl e
                         | Inr index' \<Rightarrow>
                             (if has_na \<noteq> 0 then take_idx old_index_map index'
                              else Inr index'))))"

section \<open>Row-wise driver, value form\<close>

record ('l, 'c, 'a) dataframe =
  df_index :: "'l list"
  df_columns :: "'c list"
  df_values :: "'a cell list list"

text \<open>A well-formed table: one label per row, and every row as wide as the column
  axis (\<open>self.values\<close> is a rectangular 2-D array).\<close>

definition frame_ok :: "('l, 'c, 'a) dataframe \<Rightarrow> bool" where
  "frame_ok df \<longleftrightarrow>
     length (df_index df) = length (df_values df) \<and>
     list_all (\<lambda>row. length row = length (df_columns df)) (df_values df)"

text \<open>
  \<open>ret[i][:len(r)] = r\<close> on a row of \<open>ret\<close>. The target \<open>ret[i][:len(r)]\<close> has
  \<open>min(len(r), cols)\<close> cells. numpy stores \<open>r\<close> when the lengths agree, broadcasts a
  one-element \<open>r\<close> to the target (also to an empty one), and raises \<open>ValueError\<close>
  otherwise.
\<close>

definition assign_prefix :: "'a cell list \<Rightarrow> 'a list \<Rightarrow> error + 'a cell list" where
  "assign_prefix row r =
     (let k = min (length r) (length row)
      in if length r = k then Inr (map Some r @ drop k row)
         else if length r = 1 then Inr (replicate k (Some (hd r)) @ drop k row)
         else Inl ValueError)"

text \<open>The loop \<open>for i in range(rows)\<close>, each row of \<open>ret\<close> starting as all NaN; the
  first row that raises ends the call.\<close>

fun fill_rows :: "('a::linorder) prims \<Rightarrow> nat \<Rightarrow> int \<Rightarrow> bool option \<Rightarrow> 'a cell list list \<Rightarrow>
    error + 'a cell list list" where
  "fill_rows P cols N ascending [] = Inr []"
| "fill_rows P cols N ascending (v # vs) =
     (case bn_topn P (Vec v) N ascending of
        Inl e \<Rightarrow> Inl e
      | Inr r \<Rightarrow>
          (case assign_prefix (replicate cols None) r of
             Inl e \<Rightarrow> Inl e
           | Inr row \<Rightarrow>
               (case fill_rows P cols N ascending vs of
                  Inl e \<Rightarrow> Inl e
                | Inr rest \<Rightarrow> Inr (row # rest))))"

text \<open>The result: a table with the input's row labels and default column labels
  \<open>0..cols-1\<close> (\<open>wrap\<close>), or the bare array with its column count.\<close>

datatype ('l, 'a) topn_result =
  Wrapped "('l, nat, 'a) dataframe"
  | Raw nat "'a cell list list"

definition topn_df :: "('a::linorder) prims \<Rightarrow> ('l, 'c, 'a) dataframe \<Rightarrow> int \<Rightarrow> bool option \<Rightarrow> bool \<Rightarrow>
    error + ('l, 'a) topn_result" where
  "topn_df P df N ascending wrap =
     (let vals = df_values df;
          cols = nat (min (int (length (df_columns df))) \<bar>N\<bar>)
      in case fill_rows P cols N ascending vals of
           Inl e \<Rightarrow> Inl e
         | Inr ret \<Rightarrow>
             Inr (if wrap
                  then Wrapped \<lparr> df_index = df_index df, df_columns = [0..<cols], df_values = ret \<rparr>
                  else Raw cols ret))"

section \<open>ListFrame\<close>

record ('a, 'k, 'd) listframe =
  items :: "'a list"
  attrs :: "'k list option"
  repr_col :: bool
  cache_df :: "'d option"

text \<open>The entries of \<open>mutation_methods\<close>, each with the arguments the list method
  takes (an integer position for \<open>__setitem__\<close>, \<open>__delitem__\<close>, \<open>insert\<close> and \<open>pop\<close>;
  \<open>pop()\<close> is \<open>Pop None\<close>).\<close>

datatype 'a mutation =
  Append 'a
  | SetItem int 'a
  | DelItem int
  | Sort
  | Extend "'a list"
  | Insert int 'a
  | Pop "int option"
  | Remove 'a
  | Reverse

text \<open>A position as \<open>list\<close> reads it: negative counts from the end, and outside
  the list is \<open>IndexError\<close>. Positions are those of the machine word; a position
  beyond it (\<open>OverflowError\<close>, the list left as it is) is outside the model.\<close>

definition list_pos :: "'a list \<Rightarrow> int \<Rightarrow> error + nat" where
  "list_pos xs i =
     (if i < - int (length xs) \<or> int (length xs) \<le> i then Inl IndexError
      else Inr (nat (if i < 0 then i + int (length xs) else i)))"

fun list_call :: "('a::linorder) mutation \<Rightarrow> 'a list \<Rightarrow> error + 'a list" where
  "list_call (Append x) xs = Inr (xs @ [x])"
| "list_call (SetItem i x) xs =
     (case list_pos xs i of Inl e \<Rightarrow> Inl e | Inr j \<Rightarrow> Inr (xs[j := x]))"
| "list_call (DelItem i) xs =
     (case list_pos xs i of Inl e \<Rightarrow> Inl e | Inr j \<Rightarrow> Inr (take j xs @ drop (Suc j) xs))"
| "list_call Sort xs = Inr (sort xs)"
| "list_call (Extend ys) xs = Inr (xs @ ys)"
| "list_call (Insert i x) xs =
     (let j = slice_bound (length xs) i in Inr (take j xs @ x # drop j xs))"
| "list_call (Pop io) xs =
     (case list_pos xs (case io of None \<Rightarrow> - 1 | Some i \<Rightarrow> i) of
        Inl e \<Rightarrow> Inl e
      | Inr j \<Rightarrow> Inr (take j xs @ drop (Suc j) xs))"
| "list_call (Remove x) xs = (if x \<in> set xs then Inr (remove1 x xs) else Inl ValueError)"
| "list_call Reverse xs = Inr (rev xs)"

text \<open>
  \<open>_binder(method)\<close>: clear the cache, then call the list method. The wrapper
  returns nothing, so the outcome is the new state and the error raised, if any; when
  the list method raises, the cache has been cleared already.
\<close>

definition bound_method :: "('a::linorder) mutation \<Rightarrow> ('a, 'k, 'd) listframe \<Rightarrow>
    ('a, 'k, 'd) listframe \<times> error option" where
  "bound_method m self =
     (let self1 = self\<lparr>cache_df := None\<rparr>
      in case list_call m (items self1) of
           Inl e \<Rightarrow> (self1, Some e)
         | Inr xs \<Rightarrow> (self1\<lparr>items := xs\<rparr>, None))"

section \<open>The contract of the array primitives\<close>

text \<open>
  \<open>nb.partsort(arr, n)\<close> returns a rearrangement of \<open>arr\<close> whose first \<open>n\<close> elements
  are the \<open>n\<close> smallest, in any order; \<open>nb.argpartsort\<close> returns the positions that
  arrange \<open>arr\<close> so; \<open>np.argsort\<close> returns the positions that sort its argument.
\<close>

definition partsort_ok :: "('a::linorder) prims \<Rightarrow> bool" where
  "partsort_ok P \<longleftrightarrow>
     (\<forall>xs n. 1 \<le> n \<and> n \<le> length xs \<longrightarrow>
        mset (partsort_impl P xs n) = mset xs \<and>
        (\<forall>x \<in> set (take n (partsort_impl P xs n)).
           \<forall>y \<in> set (drop n (partsort_impl P xs n)). x \<le> y))"

definition argpartsort_ok :: "('a::linorder) prims \<Rightarrow> bool" where
  "argpartsort_ok P \<longleftrightarrow>
     (\<forall>xs n. 1 \<le> n \<and> n \<le> length xs \<longrightarrow>
        mset (argpartsort_impl P xs n) = mset [0..<length xs] \<and>
        (\<forall>i \<in> set (take n (argpartsort_impl P xs n)).
           \<forall>j \<in> set (drop n (argpartsort_impl P xs n)). xs ! i \<le> xs ! j))"

definition argsort_ok :: "('a::linorder) prims \<Rightarrow> bool" where
  "argsort_ok P \<longleftrightarrow>
     (\<forall>xs. mset (argsort_impl P xs) = mset [0..<length xs] \<and>
           sorted (map (\<lambda>i. xs ! i) (argsort_impl P xs)))"

text \<open>One instance of the contract, by full sorting; the concrete evaluations below
  use it.\<close>

definition ref_prims :: "('a::linorder) prims" where
  "ref_prims =
     \<lparr> partsort_impl = (\<lambda>xs n. sort xs),
       argpartsort_impl = (\<lambda>xs n. sort_key (\<lambda>i. xs ! i) [0..<length xs]),
       argsort_impl = (\<lambda>xs. sort_key (\<lambda>i. xs ! i) [0..<length xs]) \<rparr>"

text \<open>The table of the row-wise scenario.\<close>

definition table2 :: "(string, string, real) dataframe" where
  "table2 = \<lparr> df_index = [''r0'', ''r1''], df_columns = [''a'', ''b'', ''c'', ''d''],
      df_values = [[Some 3, Some 1, Some 5, Some 2], [Some 9, None, Some 4, Some 0]] \<rparr>"

section \<open>The reference primitives meet the contract\<close>

lemma sorted_take_le_drop:
  assumes "sorted ys" "x \<in> set (take n ys)" "y \<in> set (drop n ys)"
  shows "x \<le> y"
proof -
  have "sorted (take n ys @ drop n ys)" using assms(1) by simp
  then show ?thesis using assms(2,3) unfolding sorted_append by blast
qed

lemma ref_prims_partsort_ok: "partsort_ok ref_prims"
  unfolding partsort_ok_def ref_prims_def
  by (auto intro: sorted_take_le_drop [OF sorted_sort])

lemma ref_prims_argpartsort_ok: "argpartsort_ok (ref_prims :: ('a::linorder) prims)"
proof -
  have "xs ! i \<le> xs ! j"
    if "i \<in> set (take n (sort_key (\<lambda>i. xs ! i) [0..<length xs]))"
       "j \<in> set (drop n (sort_key (\<lambda>i. xs ! i) [0..<length xs]))"
    for xs :: "'a list" and n i j
  proof -
    let ?ys = "sort_key (\<lambda>i. xs ! i) [0..<length xs]"
    have "sorted (map (\<lambda>i. xs ! i) ?ys)" by (rule sorted_sort_key)
    moreover have "xs ! i \<in> set (take n (map (\<lambda>i. xs ! i) ?ys))"
      using that(1) by (simp add: take_map)
    moreover have "xs ! j \<in> set (drop n (map (\<lambda>i. xs ! i) ?ys))"
      using that(2) by (simp add: drop_map)
    ultimately show ?thesis by (rule sorted_take_le_drop)
  qed
  then show ?thesis
    unfolding argpartsort_ok_def ref_prims_def by simp
qed

lemma ref_prims_argsort_ok: "argsort_ok ref_prims"
  unfolding argsort_ok_def ref_prims_def by simp

section \<open>Selection by partition\<close>

text \<open>A rearrangement split at \<open>n\<close> with the low side below the high side holds,
  up to order, the \<open>n\<close> smallest elements on the low side and the rest on the high side.\<close>

lemma partition_sort_split:
  fixes ys :: "('a::linorder) list"
  assumes m: "mset ys = mset xs"
    and p: "\<forall>x \<in> set (take n ys). \<forall>y \<in> set (drop n ys). x \<le> y"
    and n: "n \<le> length xs"
  shows "sort (take n ys) = take n (sort xs)" and "sort (drop n ys) = drop n (sort xs)"
proof -
  let ?A = "sort (take n ys)" and ?B = "sort (drop n ys)"
  have len: "length ys = length xs" using m by (rule mset_eq_length)
  have "sorted (?A @ ?B)" using p by (simp add: sorted_append)
  moreover have "mset (?A @ ?B) = mset xs"
  proof -
    have "mset (?A @ ?B) = mset (take n ys) + mset (drop n ys)" by simp
    also have "\<dots> = mset (take n ys @ drop n ys)" by (simp only: mset_append)
    also have "\<dots> = mset xs" using m by (simp only: append_take_drop_id)
    finally show ?thesis .
  qed
  ultimately have e: "sort xs = ?A @ ?B" by (simp only: properties_for_sort)
  have l: "length ?A = n" using n len by simp
  show "sort (take n ys) = take n (sort xs)" using e l by simp
  show "sort (drop n ys) = drop n (sort xs)" using e l by simp
qed

section \<open>Properties of the value form\<close>

lemma dropna_map_Some: "dropna (map Some xs) = xs"
  by (induction xs) simp_all

text \<open>
  Claim C3. For every 1-D sequence \<open>s\<close>, \<open>selectValues(s, 0, None)\<close> does not raise
  and returns all non-NaN values of \<open>s\<close>, sorted ascending, with no truncation.
\<close>

theorem bn_topn_zero_default_returns_all_sorted:
  "bn_topn P (Vec s) 0 None = Inr (sort (dropna s))"
  by (simp add: resolve_ascending_def topn_split_def)

text \<open>
  Claim C6. Reversal law: for every 1-D sequence \<open>s\<close> and every integer \<open>N\<close>, the
  reverse of \<open>selectValues(s, N, True)\<close> equals \<open>selectValues(s, N, False)\<close>; when
  one call raises, the other raises the same error.
\<close>

theorem bn_topn_descending_is_reversed_ascending:
  "map_sum id rev (bn_topn P (Vec s) N (Some True)) = bn_topn P (Vec s) N (Some False)"
  by (simp add: resolve_ascending_def Let_def split: prod.splits sum.splits)

text \<open>
  Claim C7. NaN exclusion: a sequence \<open>t\<close> with NaNs inserted anywhere gives the
  same result as its NaN-free version \<open>dropna t\<close>, for every \<open>N\<close> and every ascending
  choice; in particular the multiset of returned values is the same.
\<close>

theorem bn_topn_ignores_inserted_nans:
  "bn_topn P (Vec t) N ascending = bn_topn P (Vec (map Some (dropna t))) N ascending"
  by (simp add: dropna_map_Some)

text \<open>What the value form computes, for nonzero N.\<close>

lemma bn_topn_top:
  assumes ok: "partsort_ok P" and N: "0 < N"
  shows "bn_topn P (Vec a) N ascending =
    Inr (let r = drop (length (dropna a) - nat N) (sort (dropna a))
         in if resolve_ascending ascending N then r else rev r)"
proof -
  let ?arr = "dropna a"
  let ?M = "length ?arr"
  show ?thesis
  proof (cases "N \<ge> int ?M")
    case True
    then have "topn_split N ?M = (0, SliceFrom 0)"
      using N by (simp add: topn_split_def)
    then show ?thesis using True by (simp add: Let_def)
  next
    case False
    define n where "n = ?M - nat N"
    have n1: "1 \<le> n" "n \<le> ?M" "n < ?M" using False N by (simp_all add: n_def)
    have sp: "topn_split N ?M = (int n, SliceFrom (int n))"
      using False N by (simp add: topn_split_def n_def Let_def)
    let ?out = "partsort_impl P ?arr n"
    have m: "mset ?out = mset ?arr"
      and p: "\<forall>x \<in> set (take n ?out). \<forall>y \<in> set (drop n ?out). x \<le> y"
      using ok n1 unfolding partsort_ok_def by blast+
    have len: "length ?out = ?M" using m by (rule mset_eq_length)
    have "sort (drop n ?out) = drop n (sort ?arr)"
      using m p n1(2) by (rule partition_sort_split(2))
    moreover have "nb_partsort P ?arr (int n) = Inr ?out"
      using n1 by (auto simp: nb_partsort_def)
    moreover have "getslice ?out (SliceFrom (int n)) = drop n ?out"
      using n1 len by (simp add: slice_bound_def)
    ultimately have "bn_topn P (Vec a) N ascending =
        Inr (let r = drop n (sort ?arr) in if resolve_ascending ascending N then r else rev r)"
      using sp n1(1) by (simp add: Let_def)
    then show ?thesis by (simp only: n_def)
  qed
qed

lemma bn_topn_bottom:
  assumes ok: "partsort_ok P" and N: "N < 0"
  shows "bn_topn P (Vec a) N ascending =
    Inr (let r = take (nat (- N)) (sort (dropna a))
         in if resolve_ascending ascending N then r else rev r)"
proof -
  let ?arr = "dropna a"
  let ?M = "length ?arr"
  define n where "n = min (nat (- N)) ?M"
  have "int n = min \<bar>N\<bar> (int ?M)" using N unfolding n_def by linarith
  then have sp: "topn_split N ?M = (int n, SliceTo (int n))"
    using N by (simp add: topn_split_def Let_def)
  have tk: "take (nat (- N)) (sort ?arr) = take n (sort ?arr)"
    by (simp add: n_def min_def)
  show ?thesis
  proof (cases "n = 0")
    case True
    have "?M = 0" using N True unfolding n_def by linarith
    then have "?arr = []" by simp
    then show ?thesis using sp True by (simp add: Let_def)
  next
    case False
    then have n1: "1 \<le> n" "n \<le> ?M" unfolding n_def by linarith+
    let ?out = "partsort_impl P ?arr n"
    have m: "mset ?out = mset ?arr"
      and p: "\<forall>x \<in> set (take n ?out). \<forall>y \<in> set (drop n ?out). x \<le> y"
      using ok n1 unfolding partsort_ok_def by blast+
    have len: "length ?out = ?M" using m by (rule mset_eq_length)
    have "sort (take n ?out) = take n (sort ?arr)"
      using m p n1(2) by (rule partition_sort_split(1))
    moreover have "nb_partsort P ?arr (int n) = Inr ?out"
      using n1 by (auto simp: nb_partsort_def)
    moreover have "getslice ?out (SliceTo (int n)) = take n ?out"
      using n1 len by (simp add: slice_bound_def)
    ultimately have "bn_topn P (Vec a) N ascending =
        Inr (let r = take n (sort ?arr) in if resolve_ascending ascending N then r else rev r)"
      using sp n1(1) by (simp add: Let_def)
    then show ?thesis by (simp only: tk)
  qed
qed

lemma bn_topn_length:
  assumes ok: "partsort_ok P" and N: "N \<noteq> 0" and r: "bn_topn P (Vec a) N ascending = Inr r"
  shows "length r = min (nat \<bar>N\<bar>) (length (dropna a))"
proof (cases "0 < N")
  case True
  have "length (dropna a) - (length (dropna a) - nat N) = min (nat \<bar>N\<bar>) (length (dropna a))"
    using True by linarith
  then show ?thesis using r unfolding bn_topn_top [OF ok True] by (auto simp: Let_def split: if_splits)
next
  case False
  then have "N < 0" using N by simp
  have "min (length (dropna a)) (nat (- N)) = min (nat \<bar>N\<bar>) (length (dropna a))"
    using \<open>N < 0\<close> by linarith
  then show ?thesis using r unfolding bn_topn_bottom [OF ok \<open>N < 0\<close>] by (auto simp: Let_def split: if_splits)
qed

text \<open>
  Claim C5. For every sequence \<open>s\<close> without NaNs and every \<open>N\<close> with
  \<open>0 < N \<le> len(s)\<close>, \<open>selectValues(s, N, True)\<close> returns exactly \<open>N\<close> elements, sorted
  ascending.
\<close>

theorem bn_topn_ascending_length_sorted:
  assumes "partsort_ok P" and "0 < N" and "N \<le> int (length xs)"
  shows "\<exists>r. bn_topn P (Vec (map Some xs)) N (Some True) = Inr r \<and>
             length r = nat N \<and> sorted r"
  using assms(2,3) unfolding bn_topn_top [OF assms(1,2)]
  by (simp add: Let_def dropna_map_Some resolve_ascending_def)

theorem bn_topn_ascending_length_sorted_witness:
  "\<exists>r. bn_topn ref_prims (Vec (map Some [3, 1, 5, 2 :: real])) 2 (Some True) = Inr r \<and>
       length r = nat 2 \<and> sorted r"
  using bn_topn_ascending_length_sorted [OF ref_prims_partsort_ok, of 2 "[3, 1, 5, 2 :: real]"]
  by simp

lemma sort_Nil_iff: "sort xs = [] \<longleftrightarrow> xs = []"
  by (metis length_0_conv length_sort)

text \<open>The result of a request with \<open>N = 0\<close>, for every ascending choice.\<close>

lemma bn_topn_zero:
  "bn_topn P (Vec v) 0 ascending =
     Inr (if resolve_ascending ascending 0 then sort (dropna v) else rev (sort (dropna v)))"
  by (simp add: topn_split_def Let_def)

text \<open>
  Claim C4, as amended. For every 1-D sequence and every ascending choice, a request
  with \<open>N = 0\<close> returns all the non-NaN values of the sequence, sorted ascending when
  the resolved order is ascending and descending otherwise; the result is empty
  exactly when the sequence has no non-NaN value.
\<close>

theorem bn_topn_zero_returns_all:
  "\<exists>r. bn_topn P (Vec s) 0 ascending = Inr r \<and>
       r = (if resolve_ascending ascending 0 then sort (dropna s) else rev (sort (dropna s))) \<and>
       mset r = mset (dropna s) \<and>
       (r = [] \<longleftrightarrow> dropna s = [])"
  by (simp add: bn_topn_zero sort_Nil_iff del: bn_topn.simps)

text \<open>The claim as stated (an empty result for \<open>N = 0\<close>) fails on \<open>[1.0]\<close>.\<close>

theorem bn_topn_zero_nonempty_counterexample:
  "bn_topn ref_prims (Vec [Some (1::real)]) 0 None = Inr [1] \<and>
   bn_topn ref_prims (Vec [Some (1::real)]) 0 None \<noteq> Inr []"
  by (simp add: topn_split_def resolve_ascending_def)

section \<open>The row-wise driver\<close>

lemma length_dropna_le: "length (dropna cs) \<le> length cs"
  by (induction cs rule: dropna.induct) simp_all

lemma bn_topn_returns:
  assumes "partsort_ok P" and "N \<noteq> 0"
  shows "\<exists>r. bn_topn P (Vec a) N ascending = Inr r"
proof (cases "0 < N")
  case True
  then show ?thesis by (simp only: bn_topn_top [OF assms(1)]) blast
next
  case False
  then have "N < 0" using assms(2) by simp
  then show ?thesis by (simp only: bn_topn_bottom [OF assms(1)]) blast
qed

lemma assign_prefix_fits:
  assumes "length r \<le> cols"
  shows "assign_prefix (replicate cols None) r =
    Inr (map Some r @ replicate (cols - length r) None)"
  using assms by (simp add: assign_prefix_def Let_def min_def)

lemma fill_rows_pads:
  assumes ok: "partsort_ok P" and N: "N \<noteq> 0"
    and cols: "cols = min w (nat \<bar>N\<bar>)"
    and wide: "list_all (\<lambda>row. length row = w) vs"
  shows "\<exists>ret. fill_rows P cols N ascending vs = Inr ret \<and>
    list_all2 (\<lambda>v row. \<exists>r. bn_topn P (Vec v) N ascending = Inr r \<and>
                 length r \<le> cols \<and>
                 row = map Some r @ replicate (cols - length r) None) vs ret"
  using wide
proof (induction vs)
  case Nil
  show ?case by simp
next
  case (Cons v vs)
  from bn_topn_returns [OF ok N] obtain r where r: "bn_topn P (Vec v) N ascending = Inr r"
    by blast
  have "length r = min (nat \<bar>N\<bar>) (length (dropna v))"
    using ok N r by (rule bn_topn_length)
  moreover have "length (dropna v) \<le> w"
    using Cons.prems length_dropna_le [of v] by simp
  ultimately have fits: "length r \<le> cols" using cols by linarith
  then have a: "assign_prefix (replicate cols None) r =
      Inr (map Some r @ replicate (cols - length r) None)"
    by (rule assign_prefix_fits)
  from Cons obtain rest where rest: "fill_rows P cols N ascending vs = Inr rest"
    and all: "list_all2 (\<lambda>v row. \<exists>r. bn_topn P (Vec v) N ascending = Inr r \<and>
                 length r \<le> cols \<and>
                 row = map Some r @ replicate (cols - length r) None) vs rest"
    by auto
  show ?case using r fits a rest all by (simp del: bn_topn.simps)
qed

text \<open>
  Claim C8. For every well-formed table and every nonzero \<open>N\<close>, \<open>topn_df\<close> returns a
  table with exactly \<open>min(columnCount, |N|)\<close> columns, whose row \<open>i\<close> holds
  \<open>selectValues(row i, N, ascending)\<close> left-aligned and NaN in every remaining trailing
  cell, and whose row labels are the input's, in the same order.
\<close>

theorem topn_df_pads_rows:
  assumes "partsort_ok P" and "frame_ok df" and "N \<noteq> 0"
  shows "\<exists>ret. topn_df P df N ascending True = Inr (Wrapped ret) \<and>
    length (df_columns ret) = min (length (df_columns df)) (nat \<bar>N\<bar>) \<and>
    df_index ret = df_index df \<and>
    list_all2 (\<lambda>v row. \<exists>r. bn_topn P (Vec v) N ascending = Inr r \<and>
        length r \<le> length (df_columns ret) \<and>
        row = map Some r @ replicate (length (df_columns ret) - length r) None)
      (df_values df) (df_values ret)"
proof -
  define cols where "cols = min (length (df_columns df)) (nat \<bar>N\<bar>)"
  have c: "nat (min (int (length (df_columns df))) \<bar>N\<bar>) = cols"
    unfolding cols_def by linarith
  have "list_all (\<lambda>row. length row = length (df_columns df)) (df_values df)"
    using assms(2) by (simp add: frame_ok_def)
  from fill_rows_pads [OF assms(1,3) cols_def this, of ascending]
  obtain ret where "fill_rows P cols N ascending (df_values df) = Inr ret"
    and "list_all2 (\<lambda>v row. \<exists>r. bn_topn P (Vec v) N ascending = Inr r \<and>
                 length r \<le> cols \<and>
                 row = map Some r @ replicate (cols - length r) None) (df_values df) ret"
    by blast
  then show ?thesis
    by (simp add: topn_df_def Let_def c) (simp add: cols_def)
qed

theorem topn_df_pads_rows_witness:
  "\<exists>ret. topn_df ref_prims table2 2 None True = Inr (Wrapped ret) \<and>
    length (df_columns ret) = min (length (df_columns table2)) (nat \<bar>2\<bar>) \<and>
    df_index ret = df_index table2 \<and>
    list_all2 (\<lambda>v row. \<exists>r. bn_topn ref_prims (Vec v) 2 None = Inr r \<and>
        length r \<le> length (df_columns ret) \<and>
        row = map Some r @ replicate (length (df_columns ret) - length r) None)
      (df_values table2) (df_values ret)"
proof -
  have "frame_ok table2" by (simp add: frame_ok_def table2_def)
  from topn_df_pads_rows [OF ref_prims_partsort_ok this, of 2 None]
  show ?thesis by simp
qed

lemma fill_rows_zero_raises:
  assumes "\<exists>v \<in> set vs. 2 \<le> length (dropna v)"
  shows "fill_rows P 0 0 ascending vs = Inl ValueError"
  using assms
proof (induction vs)
  case Nil
  then show ?case by simp
next
  case (Cons v vs)
  show ?case
  proof (cases "2 \<le> length (dropna v)")
    case True
    then show ?thesis
      by (auto simp: bn_topn_zero assign_prefix_def sort_Nil_iff simp del: bn_topn.simps)
  next
    case False
    then have "fill_rows P 0 0 ascending vs = Inl ValueError"
      using Cons by auto
    then show ?thesis
      by (simp add: bn_topn_zero assign_prefix_def Let_def del: bn_topn.simps)
  qed
qed

text \<open>
  Claim C10, as amended. For every table having at least one row with at least two
  non-NaN values, \<open>topn_df\<close> called with \<open>N = 0\<close> raises (\<open>ValueError\<close>): the
  output rows have no cells, and two or more values cannot be stored into none.
\<close>

theorem topn_df_zero_raises:
  assumes "\<exists>v \<in> set (df_values df). 2 \<le> length (dropna v)"
  shows "topn_df P df 0 ascending wrap = Inl ValueError"
  using fill_rows_zero_raises [OF assms] by (simp add: topn_df_def)

theorem topn_df_zero_raises_witness:
  "topn_df ref_prims
     \<lparr> df_index = [0::nat], df_columns = [0::nat, 1], df_values = [[Some (1::real), Some 2]] \<rparr>
     0 None True = Inl ValueError"
  using topn_df_zero_raises [of "\<lparr> df_index = [0::nat], df_columns = [0::nat, 1],
     df_values = [[Some (1::real), Some 2]] \<rparr>" ref_prims None True]
  by simp

text \<open>The claim as stated (an error as soon as a row has one non-NaN value) fails on
  the table \<open>[[1.0]]\<close>: numpy broadcasts the single value into the empty row, and the
  call returns a table without columns.\<close>

theorem topn_df_zero_single_value_counterexample:
  "topn_df ref_prims
     \<lparr> df_index = [0::nat], df_columns = [0::nat], df_values = [[Some (1::real)]] \<rparr>
     0 None True =
   Inr (Wrapped \<lparr> df_index = [0], df_columns = [], df_values = [[]] \<rparr>)"
  by (simp add: topn_df_def topn_split_def resolve_ascending_def assign_prefix_def)

section \<open>The index form inside the accepted range\<close>

lemma perm_upt_bounds:
  assumes "mset p = mset [0..<n]"
  shows "list_all (\<lambda>i. i < n) p" and "length p = n"
proof -
  have "set p = set [0..<n]" using assms by (rule mset_eq_setD)
  then show "list_all (\<lambda>i. i < n) p" by (simp add: list_all_iff)
  show "length p = n" using mset_eq_length [OF assms] by simp
qed

lemma perm_upt_map_nth:
  assumes "mset p = mset [0..<length xs]"
  shows "mset (map (\<lambda>i. xs ! i) p) = mset xs"
proof -
  have "mset (map (\<lambda>i. xs ! i) p) = image_mset (\<lambda>i. xs ! i) (mset p)" by simp
  also have "\<dots> = image_mset (\<lambda>i. xs ! i) (mset [0..<length xs])" by (simp only: assms)
  also have "\<dots> = mset (map (\<lambda>i. xs ! i) [0..<length xs])" by simp
  also have "\<dots> = mset xs" by (simp only: map_nth)
  finally show ?thesis .
qed

lemma argsort_sorts:
  assumes "argsort_ok P"
  shows "list_all (\<lambda>i. i < length ys) (argsort_impl P ys)"
    and "map (\<lambda>i. ys ! i) (argsort_impl P ys) = sort ys"
proof -
  let ?p = "argsort_impl P ys"
  have m: "mset ?p = mset [0..<length ys]" and s: "sorted (map (\<lambda>i. ys ! i) ?p)"
    using assms unfolding argsort_ok_def by blast+
  show "list_all (\<lambda>i. i < length ys) ?p" using m by (rule perm_upt_bounds(1))
  have "mset (map (\<lambda>i. ys ! i) ?p) = mset ys" using m by (rule perm_upt_map_nth)
  then have "sort ys = map (\<lambda>i. ys ! i) ?p" using s by (rule properties_for_sort)
  then show "map (\<lambda>i. ys ! i) ?p = sort ys" by simp
qed

lemma argpartsort_selects:
  assumes "argpartsort_ok P" and "1 \<le> n" and "n \<le> length arr"
  shows "list_all (\<lambda>i. i < length arr) (argpartsort_impl P arr n)"
    and "length (argpartsort_impl P arr n) = length arr"
    and "sort (map (\<lambda>i. arr ! i) (take n (argpartsort_impl P arr n))) = take n (sort arr)"
    and "sort (map (\<lambda>i. arr ! i) (drop n (argpartsort_impl P arr n))) = drop n (sort arr)"
proof -
  let ?out = "argpartsort_impl P arr n"
  let ?ys = "map (\<lambda>i. arr ! i) ?out"
  have m: "mset ?out = mset [0..<length arr]"
    and p: "\<forall>i \<in> set (take n ?out). \<forall>j \<in> set (drop n ?out). arr ! i \<le> arr ! j"
    using assms unfolding argpartsort_ok_def by blast+
  show "list_all (\<lambda>i. i < length arr) ?out" using m by (rule perm_upt_bounds(1))
  show "length ?out = length arr" using m by (rule perm_upt_bounds(2))
  have my: "mset ?ys = mset arr" using m by (rule perm_upt_map_nth)
  have py: "\<forall>x \<in> set (take n ?ys). \<forall>y \<in> set (drop n ?ys). x \<le> y"
    using p by (simp add: take_map drop_map)
  show "sort (map (\<lambda>i. arr ! i) (take n ?out)) = take n (sort arr)"
    using partition_sort_split(1) [OF my py assms(3)] by (simp only: take_map)
  show "sort (map (\<lambda>i. arr ! i) (drop n ?out)) = drop n (sort arr)"
    using partition_sort_split(2) [OF my py assms(3)] by (simp only: drop_map)
qed

lemma length_notna_from: "length (notna_from k a) = length (dropna a)"
  by (induction k a rule: notna_from.induct) simp_all

lemma notna_from_nth:
  assumes "j < length (dropna a)"
  shows "k \<le> notna_from k a ! j \<and> notna_from k a ! j < k + length a \<and>
         a ! (notna_from k a ! j - k) = Some (dropna a ! j)"
  using assms
proof (induction k a arbitrary: j rule: notna_from.induct)
  case (1 k)
  then show ?case by simp
next
  case (2 k cs)
  then have "Suc k \<le> notna_from (Suc k) cs ! j \<and> notna_from (Suc k) cs ! j < Suc k + length cs \<and>
         cs ! (notna_from (Suc k) cs ! j - Suc k) = Some (dropna cs ! j)" by simp
  then show ?case by (auto simp: Suc_diff_le)
next
  case (3 k x cs)
  show ?case
  proof (cases j)
    case 0
    then show ?thesis by simp
  next
    case (Suc j')
    then have "j' < length (dropna cs)" using 3(2) by simp
    then have "Suc k \<le> notna_from (Suc k) cs ! j' \<and> notna_from (Suc k) cs ! j' < Suc k + length cs \<and>
         cs ! (notna_from (Suc k) cs ! j' - Suc k) = Some (dropna cs ! j')" by (rule 3(1))
    then show ?thesis using Suc by (auto simp: Suc_diff_le)
  qed
qed

lemma where_notna_nth:
  assumes "j < length (dropna a)"
  shows "where_notna a ! j < length a" and "a ! (where_notna a ! j) = Some (dropna a ! j)"
  using notna_from_nth [OF assms, of 0] by (simp_all add: where_notna_def)

lemma no_nan_dropna:
  assumes "length (filter (\<lambda>c. c = None) a) = 0"
  shows "map Some (dropna a) = a"
  using assms by (induction a rule: dropna.induct) simp_all

lemma take_idx_in_range:
  assumes "list_all (\<lambda>i. i < length xs) index"
  shows "take_idx xs index = Inr (map (\<lambda>i. xs ! i) index)"
  using assms by (simp add: take_idx_def)

text \<open>Mapping compacted positions back to the original sequence.\<close>

lemma map_back:
  assumes idx: "list_all (\<lambda>i. i < length (dropna a)) index"
  shows "\<exists>res. (if length (filter (\<lambda>c. c = None) a) \<noteq> 0 then take_idx (where_notna a) index
                 else Inr index) = Inr res \<and>
          take_idx a res = Inr (map Some (map (\<lambda>i. dropna a ! i) index))"
proof (cases "length (filter (\<lambda>c. c = None) a) \<noteq> 0")
  case True
  let ?res = "map (\<lambda>i. where_notna a ! i) index"
  have "list_all (\<lambda>i. i < length (where_notna a)) index"
    using idx by (simp add: where_notna_def length_notna_from)
  then have 1: "take_idx (where_notna a) index = Inr ?res" by (rule take_idx_in_range)
  have "list_all (\<lambda>i. i < length a) ?res"
    using idx where_notna_nth(1) [of _ a] by (simp add: list_all_iff)
  then have "take_idx a ?res = Inr (map (\<lambda>i. a ! i) ?res)" by (rule take_idx_in_range)
  moreover have "map (\<lambda>i. a ! i) ?res = map Some (map (\<lambda>i. dropna a ! i) index)"
    using idx where_notna_nth(2) [of _ a] by (simp add: list_all_iff)
  ultimately show ?thesis using True 1 by simp
next
  case False
  then have e: "map Some (dropna a) = a" by (simp add: no_nan_dropna)
  then have l: "length a = length (dropna a)" by (metis length_map)
  have "take_idx a index = Inr (map (\<lambda>i. a ! i) index)"
    using idx l by (simp add: take_idx_in_range)
  moreover have "map (\<lambda>i. a ! i) index = map Some (map (\<lambda>i. dropna a ! i) index)"
  proof -
    have "a ! i = Some (dropna a ! i)" if "i < length (dropna a)" for i
      using that nth_map [of i "dropna a" Some] by (simp only: e)
    then show ?thesis using idx by (simp add: list_all_iff)
  qed
  ultimately show ?thesis using False by simp
qed

text \<open>Ordering the selected positions by value.\<close>

lemma order_selected:
  fixes asc :: bool
  assumes as: "argsort_ok P" and idx: "list_all (\<lambda>i. i < length arr) index"
  defines "picked \<equiv> map (\<lambda>i. arr ! i) index"
  defines "index_sort \<equiv> (if \<not> asc then rev (argsort_impl P picked) else argsort_impl P picked)"
  shows "take_idx index index_sort = Inr (map (\<lambda>j. index ! j) index_sort)"
    and "list_all (\<lambda>i. i < length arr) (map (\<lambda>j. index ! j) index_sort)"
    and "map (\<lambda>i. arr ! i) (map (\<lambda>j. index ! j) index_sort) =
         (if asc then sort picked else rev (sort picked))"
proof -
  let ?p = "argsort_impl P picked"
  have lp: "length picked = length index" by (simp add: picked_def)
  have b: "list_all (\<lambda>j. j < length index) ?p"
    using argsort_sorts(1) [OF as, of picked] by (simp only: lp)
  then have bs: "list_all (\<lambda>j. j < length index) index_sort"
    by (simp add: index_sort_def list_all_iff)
  then show "take_idx index index_sort = Inr (map (\<lambda>j. index ! j) index_sort)"
    by (rule take_idx_in_range)
  show "list_all (\<lambda>i. i < length arr) (map (\<lambda>j. index ! j) index_sort)"
    using bs idx by (simp add: list_all_iff)
  have "map (\<lambda>i. arr ! i) (map (\<lambda>j. index ! j) q) = map (\<lambda>j. picked ! j) q"
    if "list_all (\<lambda>j. j < length index) q" for q
    using that by (simp add: picked_def list_all_iff)
  then have "map (\<lambda>i. arr ! i) (map (\<lambda>j. index ! j) index_sort) = map (\<lambda>j. picked ! j) index_sort"
    using bs by blast
  also have "\<dots> = (if asc then sort picked else rev (sort picked))"
    using argsort_sorts(2) [OF as, of picked] by (simp add: index_sort_def flip: rev_map)
  finally show "map (\<lambda>i. arr ! i) (map (\<lambda>j. index ! j) index_sort) =
         (if asc then sort picked else rev (sort picked))" .
qed

lemma bn_topargn_core:
  assumes as: "argsort_ok P"
    and sp: "topargn_split N (length (dropna a)) = (n', sl)"
    and ap: "nb_argpartsort P (dropna a) n' = Inr out"
    and idx: "list_all (\<lambda>i. i < length (dropna a)) (getslice out sl)"
  shows "\<exists>res. bn_topargn P (Vec a) N ascending = Inr res \<and>
     take_idx a res = Inr (map Some
       (let r = sort (map (\<lambda>i. dropna a ! i) (getslice out sl))
        in if resolve_ascending ascending N then r else rev r))"
proof -
  let ?arr = "dropna a"
  define index where "index = getslice out sl"
  define asc where "asc = resolve_ascending ascending N"
  define picked where "picked = map (\<lambda>i. ?arr ! i) index"
  define index_sort where
    "index_sort = (if \<not> asc then rev (argsort_impl P picked) else argsort_impl P picked)"
  define index' where "index' = map (\<lambda>j. index ! j) index_sort"
  have i: "list_all (\<lambda>i. i < length ?arr) index" using idx by (simp only: index_def)
  have t1: "take_idx ?arr index = Inr picked"
    using i unfolding picked_def by (rule take_idx_in_range)
  have t2: "take_idx index index_sort = Inr index'"
    and b2: "list_all (\<lambda>i. i < length ?arr) index'"
    and v2: "map (\<lambda>i. ?arr ! i) index' = (if asc then sort picked else rev (sort picked))"
    using order_selected [OF as i, of asc]
    unfolding picked_def index_sort_def index'_def by blast+
  from map_back [OF b2] obtain res where
    r1: "(if length (filter (\<lambda>c. c = None) a) \<noteq> 0 then take_idx (where_notna a) index'
          else Inr index') = Inr res"
    and r2: "take_idx a res = Inr (map Some (map (\<lambda>i. ?arr ! i) index'))" by blast
  have "bn_topargn P (Vec a) N ascending =
      (if length (filter (\<lambda>c. c = None) a) \<noteq> 0 then take_idx (where_notna a) index'
       else Inr index')"
    using sp ap t1 t2
    by (simp add: Let_def index_def [symmetric] asc_def [symmetric] index_sort_def [symmetric])
  then have "bn_topargn P (Vec a) N ascending = Inr res" using r1 by simp
  moreover have "take_idx a res = Inr (map Some
       (let r = sort (map (\<lambda>i. ?arr ! i) (getslice out sl))
        in if resolve_ascending ascending N then r else rev r))"
    using r2 v2 by (simp add: Let_def picked_def index_def asc_def)
  ultimately show ?thesis by blast
qed

lemma list_all_drop: "list_all Q xs \<Longrightarrow> list_all Q (drop n xs)"
  by (auto simp: list_all_iff dest: in_set_dropD)

lemma list_all_take: "list_all Q xs \<Longrightarrow> list_all Q (take n xs)"
  by (auto simp: list_all_iff dest: in_set_takeD)

text \<open>
  Inside the range that \<open>nb.argpartsort\<close> accepts (\<open>0 < N < M\<close>, or \<open>N < 0\<close> with
  \<open>|N| \<le> M\<close>) the index form returns, and indexing the sequence with its result
  gives the values of the value form, element for element.
\<close>

lemma bn_topargn_round_trip:
  assumes ps: "partsort_ok P" and aps: "argpartsort_ok P" and as: "argsort_ok P"
    and range: "(0 < N \<and> N < int (length (dropna s))) \<or>
                (N < 0 \<and> - N \<le> int (length (dropna s)))"
  shows "\<exists>idx vals. bn_topargn P (Vec s) N ascending = Inr idx \<and>
           bn_topn P (Vec s) N ascending = Inr vals \<and>
           take_idx s idx = Inr (map Some vals)"
proof -
  let ?arr = "dropna s"
  let ?M = "length ?arr"
  from range show ?thesis
  proof
    assume r: "0 < N \<and> N < int ?M"
    define n where "n = ?M - nat N"
    have n1: "1 \<le> n" "n \<le> ?M" using r unfolding n_def by linarith+
    have ni: "int n = int ?M - \<bar>N\<bar>" using r unfolding n_def by linarith
    let ?out = "argpartsort_impl P ?arr n"
    have sp: "topargn_split N ?M = (int n, SliceFrom (int n))"
      using r by (simp add: topargn_split_def Let_def ni)
    have ap: "nb_argpartsort P ?arr (int n) = Inr ?out"
      using n1 by (auto simp: nb_argpartsort_def)
    have gs: "getslice ?out (SliceFrom (int n)) = drop n ?out"
      using n1 argpartsort_selects(2) [OF aps n1] by (simp add: slice_bound_def)
    have "list_all (\<lambda>i. i < ?M) (drop n ?out)"
      using argpartsort_selects(1) [OF aps n1] by (rule list_all_drop)
    then have idx: "list_all (\<lambda>i. i < ?M) (getslice ?out (SliceFrom (int n)))"
      by (simp only: gs)
    from bn_topargn_core [OF as sp ap idx, of ascending] obtain res where
      "bn_topargn P (Vec s) N ascending = Inr res"
      and "take_idx s res = Inr (map Some
        (let r = sort (map (\<lambda>i. ?arr ! i) (getslice ?out (SliceFrom (int n))))
         in if resolve_ascending ascending N then r else rev r))" by blast
    moreover have "sort (map (\<lambda>i. ?arr ! i) (getslice ?out (SliceFrom (int n)))) =
        drop (?M - nat N) (sort ?arr)"
      using argpartsort_selects(4) [OF aps n1] unfolding gs by (simp only: n_def)
    moreover have "bn_topn P (Vec s) N ascending =
        Inr (let r = drop (?M - nat N) (sort ?arr)
             in if resolve_ascending ascending N then r else rev r)"
      using ps r by (simp only: bn_topn_top)
    ultimately show ?thesis by (simp only:) blast
  next
    assume r: "N < 0 \<and> - N \<le> int ?M"
    define n where "n = nat (- N)"
    have n1: "1 \<le> n" "n \<le> ?M" using r unfolding n_def by linarith+
    have ni: "int n = \<bar>N\<bar>" using r unfolding n_def by linarith
    let ?out = "argpartsort_impl P ?arr n"
    have sp: "topargn_split N ?M = (int n, SliceTo (int n))"
      using r by (simp add: topargn_split_def Let_def ni)
    have ap: "nb_argpartsort P ?arr (int n) = Inr ?out"
      using n1 by (auto simp: nb_argpartsort_def)
    have gs: "getslice ?out (SliceTo (int n)) = take n ?out"
      using n1 argpartsort_selects(2) [OF aps n1] by (simp add: slice_bound_def)
    have "list_all (\<lambda>i. i < ?M) (take n ?out)"
      using argpartsort_selects(1) [OF aps n1] by (rule list_all_take)
    then have idx: "list_all (\<lambda>i. i < ?M) (getslice ?out (SliceTo (int n)))"
      by (simp only: gs)
    from bn_topargn_core [OF as sp ap idx, of ascending] obtain res where
      "bn_topargn P (Vec s) N ascending = Inr res"
      and "take_idx s res = Inr (map Some
        (let r = sort (map (\<lambda>i. ?arr ! i) (getslice ?out (SliceTo (int n))))
         in if resolve_ascending ascending N then r else rev r))" by blast
    moreover have "sort (map (\<lambda>i. ?arr ! i) (getslice ?out (SliceTo (int n)))) =
        take (nat (- N)) (sort ?arr)"
      using argpartsort_selects(3) [OF aps n1] unfolding gs by (simp only: n_def)
    moreover have "bn_topn P (Vec s) N ascending =
        Inr (let r = take (nat (- N)) (sort ?arr)
             in if resolve_ascending ascending N then r else rev r)"
      using ps r by (simp only: bn_topn_bottom)
    ultimately show ?thesis by (simp only:) blast
  qed
qed

section \<open>The index form without a clamp\<close>

text \<open>
  \<open>bn_topargn\<close> passes \<open>len(arr) - N\<close> or \<open>|N|\<close> to \<open>nb.argpartsort\<close> as it is. On
  a sequence with a non-NaN value the call raises for \<open>N = 0\<close>, for every
  \<open>N \<ge> M\<close> and for every \<open>N < -M\<close>, where \<open>M\<close> counts the non-NaN values and
  \<open>|N|\<close> and \<open>M\<close> fit a C integer.
\<close>

lemma bn_topargn_out_of_range:
  assumes "dropna a \<noteq> []"
    and "int (length (dropna a)) \<le> N \<or> N = 0 \<or> N < - int (length (dropna a))"
    and "\<bar>N\<bar> < 2 ^ 31" and "int (length (dropna a)) < 2 ^ 31"
  shows "bn_topargn P (Vec a) N ascending = Inl ValueError"
  using assms by (auto simp: topargn_split_def nb_argpartsort_def Let_def)

text \<open>
  Claim C1 (round-trip law), at \<open>s = [1.0, 2.0]\<close> and \<open>N = 2\<close>: \<open>selectValues\<close>
  returns \<open>[2.0, 1.0]\<close> and \<open>selectIndices\<close> raises, so there is nothing to index
  \<open>s\<close> with.
\<close>

theorem bn_topargn_full_count_raises:
  "bn_topargn P (Vec [Some 1, Some (2::real)]) 2 None = Inl ValueError \<and>
   bn_topn P (Vec [Some 1, Some (2::real)]) 2 None = Inr [2, 1]"
  by (simp add: topargn_split_def topn_split_def nb_argpartsort_def resolve_ascending_def Let_def)

text \<open>
  Claim C2 (clamp to \<open>min(N, M)\<close>), at \<open>s = [1.0, 2.0]\<close> and \<open>N = 3\<close>:
  \<open>selectIndices\<close> raises instead of returning two positions.
\<close>

theorem bn_topargn_no_clamp_raises:
  "bn_topargn P (Vec [Some 1, Some (2::real)]) 3 None = Inl ValueError"
  by (simp add: topargn_split_def nb_argpartsort_def Let_def)

section \<open>ListFrame: the cache after a mutation\<close>

text \<open>
  Claim C9. For every ListFrame, invoking any of \<open>append\<close>, \<open>__setitem__\<close>,
  \<open>__delitem__\<close>, \<open>sort\<close>, \<open>extend\<close>, \<open>insert\<close>, \<open>pop\<close>, \<open>remove\<close> or \<open>reverse\<close> leaves
  \<open>_cache_df\<close> set to \<open>None\<close>, also when the list method raises.
\<close>

theorem bound_method_clears_cache:
  "cache_df (fst (bound_method m self)) = None"
  by (simp add: bound_method_def Let_def split: sum.splits)

end
